theory Spec2Isabelle
  imports Main
begin

section \<open>Python values: errors, lists and dictionaries\<close>

text \<open>
  Every exception the genome code can raise is a value; a loop that never ends is
  recorded as \<open>Nontermination\<close>.
\<close>

datatype error = KeyError | IndexError | AttributeError | ZeroDivisionError | TypeError
  | Nontermination

text \<open>\<^verbatim>\<open>xs[i]\<close>: a negative index counts from the end, anything outside raises.\<close>

definition py_getitem :: "'a list \<Rightarrow> int \<Rightarrow> error + 'a" where
  "py_getitem xs i =
     (if 0 \<le> i \<and> i < int (length xs) then Inr (xs ! nat i)
      else if i < 0 \<and> - int (length xs) \<le> i then Inr (xs ! nat (int (length xs) + i))
      else Inl IndexError)"

text \<open>A slice bound is moved into \<open>0..len\<close>: negative bounds count from the end.\<close>

definition slice_bound :: "nat \<Rightarrow> int \<Rightarrow> nat" where
  "slice_bound n i = (if i < 0 then nat (int n + i) else min n (nat i))"

text \<open>\<^verbatim>\<open>xs[i:j] = ys\<close>: an upper bound below the lower one is raised to it.\<close>

definition py_setslice :: "'a list \<Rightarrow> int \<Rightarrow> int \<Rightarrow> 'a list \<Rightarrow> 'a list" where
  "py_setslice xs i j ys =
     (let lo = slice_bound (length xs) i;
          hi = max lo (slice_bound (length xs) j)
      in take lo xs @ ys @ drop hi xs)"

text \<open>
  The dictionary \<^verbatim>\<open>transposable_elements\<close> maps an id to \<^verbatim>\<open>[pos, length]\<close>.
  Python dictionaries iterate in insertion order, and the insertion loop depends on that
  order, so the dictionary is an association list: assigning to a present key keeps its
  place, a new key goes to the end, \<^verbatim>\<open>pop\<close> removes the entry.
\<close>

type_synonym te_dict = "(int \<times> (int \<times> int)) list"

fun dict_set :: "te_dict \<Rightarrow> int \<Rightarrow> int \<times> int \<Rightarrow> te_dict" where
  "dict_set [] k v = [(k, v)]"
| "dict_set ((k', v') # d) k v =
     (if k' = k then (k, v) # d else (k', v') # dict_set d k v)"

fun dict_pop :: "te_dict \<Rightarrow> int \<Rightarrow> te_dict" where
  "dict_pop [] k = []"
| "dict_pop ((k', v') # d) k = (if k' = k then d else (k', v') # dict_pop d k)"

section \<open>The genome state\<close>

text \<open>
  An instance holds \<^verbatim>\<open>self.genome\<close>. The dictionary \<^verbatim>\<open>transposable_elements\<close> and the
  counter \<^verbatim>\<open>tes_counter\<close> are class attributes: the constructor never assigns them, so a
  new instance sees whatever earlier instances of its class left there. The state of one
  instance is therefore its own genome together with the class attributes as they stand,
  and the constructor takes the latter as arguments.
\<close>

record 'g genome_state =
  genome :: 'g
  transposable_elements :: te_dict
  tes_counter :: int

section \<open>ListGenome\<close>

type_synonym list_genome = "string genome_state"

definition ListGenome_init :: "te_dict \<Rightarrow> int \<Rightarrow> int \<Rightarrow> list_genome" where
  "ListGenome_init tes ctr n =
     \<lparr>genome = replicate (nat n) CHR ''-'', transposable_elements = tes, tes_counter = ctr\<rparr>"

text \<open>The first instance of a process: the dictionary is empty and the counter is 1.\<close>

definition ListGenome :: "int \<Rightarrow> list_genome" where
  "ListGenome n = ListGenome_init [] 1 n"

definition ListGenome_disable_te :: "list_genome \<Rightarrow> int \<Rightarrow> error + list_genome" where
  "ListGenome_disable_te g te =
     (case map_of (transposable_elements g) te of
        None \<Rightarrow> Inl KeyError
      | Some (pos, l) \<Rightarrow>
          Inr (g\<lparr>transposable_elements := dict_pop (transposable_elements g) te,
                 genome := py_setslice (genome g) pos (pos + l) (replicate (nat l) CHR ''x'')\<rparr>))"

text \<open>
  The \<^verbatim>\<open>for id, info in self.transposable_elements.items()\<close> loop of \<^verbatim>\<open>insert_te\<close>, over
  the items still to visit. A collision disables the entry and leaves the loop
  (\<^verbatim>\<open>break\<close>); the entries after it are not visited.
\<close>

fun ListGenome_insert_loop ::
  "int \<Rightarrow> int \<Rightarrow> te_dict \<Rightarrow> list_genome \<Rightarrow> error + list_genome" where
  "ListGenome_insert_loop pos len [] g = Inr g"
| "ListGenome_insert_loop pos len ((i, (s, l)) # items) g =
     (case py_getitem (genome g) pos of
        Inl e \<Rightarrow> Inl e
      | Inr c \<Rightarrow>
          if c = CHR ''A'' \<and> s \<le> pos \<and> pos \<le> s + l then ListGenome_disable_te g i
          else if s > pos then
            ListGenome_insert_loop pos len items
              (g\<lparr>transposable_elements := dict_set (transposable_elements g) i (s + len, l)\<rparr>)
          else ListGenome_insert_loop pos len items g)"

definition ListGenome_insert_te :: "list_genome \<Rightarrow> int \<Rightarrow> int \<Rightarrow> error + (int \<times> list_genome)" where
  "ListGenome_insert_te g pos len =
     (case ListGenome_insert_loop pos len (transposable_elements g) g of
        Inl e \<Rightarrow> Inl e
      | Inr g1 \<Rightarrow>
          let g2 = g1\<lparr>genome := py_setslice (genome g1) pos pos (replicate (nat len) CHR ''A'')\<rparr>;
              i = tes_counter g2
          in Inr (i, g2\<lparr>transposable_elements := dict_set (transposable_elements g2) i (pos, len),
                        tes_counter := i + 1\<rparr>))"

definition ListGenome_copy_te ::
  "list_genome \<Rightarrow> int \<Rightarrow> int \<Rightarrow> error + (int option \<times> list_genome)" where
  "ListGenome_copy_te g te offset =
     (case map_of (transposable_elements g) te of
        None \<Rightarrow> Inr (None, g)
      | Some (pos, l) \<Rightarrow>
          if length (genome g) = 0 then Inl ZeroDivisionError
          else (case ListGenome_insert_te g ((pos + offset) mod int (length (genome g))) l of
                  Inl e \<Rightarrow> Inl e
                | Inr (i, g') \<Rightarrow> Inr (Some i, g')))"

definition ListGenome_active_tes :: "list_genome \<Rightarrow> int list" where
  "ListGenome_active_tes g = map fst (transposable_elements g)"

definition ListGenome_len :: "list_genome \<Rightarrow> nat" where
  "ListGenome_len g = length (genome g)"

definition ListGenome_str :: "list_genome \<Rightarrow> string" where
  "ListGenome_str g = genome g"

section \<open>Link and DLList\<close>

text \<open>
  The links of one circular list live in a store; a reference to a link is its index
  there and \<open>None\<close> is Python's \<^verbatim>\<open>None\<close>. A new link is allocated at the end of the
  store. The field \<^verbatim>\<open>next\<close> of the source is \<open>nxt\<close> here.
\<close>

record link =
  val :: "char option"
  prev :: "nat option"
  nxt :: "nat option"

record dllist =
  store :: "link list"
  head :: nat

text \<open>
  \<^verbatim>\<open>insert_after(link, val)\<close>: reading \<^verbatim>\<open>link.next\<close> of \<^verbatim>\<open>None\<close> raises, then the two
  neighbours are redirected to the new link, one assignment after the other.
\<close>

definition insert_after :: "link list \<Rightarrow> nat option \<Rightarrow> char option \<Rightarrow> error + link list" where
  "insert_after h lnk v =
     (case lnk of
        None \<Rightarrow> Inl AttributeError
      | Some a \<Rightarrow>
          let new = length h;
              h1 = h @ [\<lparr>val = v, prev = Some a, nxt = nxt (h ! a)\<rparr>];
              h2 = h1[a := (h1 ! a)\<lparr>nxt := Some new\<rparr>]
          in (case nxt (h2 ! new) of
                None \<Rightarrow> Inl AttributeError
              | Some b \<Rightarrow> Inr (h2[b := (h2 ! b)\<lparr>prev := Some new\<rparr>])))"

fun DLList_fill :: "dllist \<Rightarrow> char list \<Rightarrow> error + dllist" where
  "DLList_fill d [] = Inr d"
| "DLList_fill d (v # vs) =
     (case insert_after (store d) (prev (store d ! head d)) (Some v) of
        Inl e \<Rightarrow> Inl e
      | Inr h \<Rightarrow> DLList_fill (d\<lparr>store := h\<rparr>) vs)"

definition DLList_init :: "char list \<Rightarrow> error + dllist" where
  "DLList_init seq =
     DLList_fill \<lparr>store = [\<lparr>val = None, prev = Some 0, nxt = Some 0\<rparr>], head = 0\<rparr> seq"

text \<open>
  The loops \<^verbatim>\<open>while link != self.head\<close> of \<^verbatim>\<open>__iter__\<close> and \<^verbatim>\<open>__len__\<close> end when the
  dummy head comes round again. They take fuel; the callers give them the size of the
  store, which is one more than the number of links a terminating walk can visit.
\<close>

fun iter_from :: "nat \<Rightarrow> link list \<Rightarrow> nat \<Rightarrow> nat option \<Rightarrow> error + char option list" where
  "iter_from 0 h hp lnk = Inl Nontermination"
| "iter_from (Suc f) h hp lnk =
     (case lnk of
        None \<Rightarrow> Inl AttributeError
      | Some a \<Rightarrow>
          if a = hp then Inr []
          else (case iter_from f h hp (nxt (h ! a)) of
                  Inl e \<Rightarrow> Inl e
                | Inr vs \<Rightarrow> Inr (val (h ! a) # vs)))"

definition DLList_iter :: "dllist \<Rightarrow> error + char option list" where
  "DLList_iter d =
     iter_from (length (store d)) (store d) (head d) (nxt (store d ! head d))"

fun len_from :: "nat \<Rightarrow> link list \<Rightarrow> nat \<Rightarrow> nat option \<Rightarrow> nat \<Rightarrow> error + nat" where
  "len_from 0 h hp lnk n = Inl Nontermination"
| "len_from (Suc f) h hp lnk n =
     (case lnk of
        None \<Rightarrow> Inl AttributeError
      | Some a \<Rightarrow> if a = hp then Inr n else len_from f h hp (nxt (h ! a)) (n + 1))"

definition DLList_len :: "dllist \<Rightarrow> error + nat" where
  "DLList_len d =
     len_from (length (store d)) (store d) (head d) (nxt (store d ! head d)) 0"

text \<open>\<^verbatim>\<open>while current and position > 1\<close>: stops early on \<^verbatim>\<open>None\<close>.\<close>

fun walk :: "nat \<Rightarrow> link list \<Rightarrow> nat option \<Rightarrow> nat option" where
  "walk 0 h cur = cur"
| "walk (Suc k) h cur = (case cur of None \<Rightarrow> None | Some a \<Rightarrow> walk k h (nxt (h ! a)))"

definition get_position :: "dllist \<Rightarrow> int \<Rightarrow> nat option" where
  "get_position d position =
     (if position < 1 then None
      else walk (nat (position - 1)) (store d) (nxt (store d ! head d)))"

text \<open>\<open>k\<close> rounds of \<^verbatim>\<open>insert_after(link_of_pos, 'A'); link_of_pos = link_of_pos.next\<close>.\<close>

fun insert_n :: "nat \<Rightarrow> link list \<Rightarrow> nat option \<Rightarrow> error + link list" where
  "insert_n 0 h lnk = Inr h"
| "insert_n (Suc k) h lnk =
     (case insert_after h lnk (Some CHR ''A'') of
        Inl e \<Rightarrow> Inl e
      | Inr h' \<Rightarrow>
          (case lnk of None \<Rightarrow> Inl AttributeError | Some a \<Rightarrow> insert_n k h' (nxt (h' ! a))))"

text \<open>
  \<^verbatim>\<open>while how_long:\<close> counts down to zero; a negative count never gets there, and the
  loop goes on inserting unless the first call already raises.
\<close>

definition insert_n_elements :: "dllist \<Rightarrow> nat option \<Rightarrow> int \<Rightarrow> error + dllist" where
  "insert_n_elements d link_of_pos len =
     (if len < 0 then
        (case link_of_pos of None \<Rightarrow> Inl AttributeError | Some a \<Rightarrow> Inl Nontermination)
      else (case insert_n (nat len) (store d) link_of_pos of
              Inl e \<Rightarrow> Inl e
            | Inr h \<Rightarrow> Inr (d\<lparr>store := h\<rparr>)))"

section \<open>LinkedListGenome\<close>

type_synonym linked_list_genome = "dllist genome_state"

definition LinkedListGenome_init :: "te_dict \<Rightarrow> int \<Rightarrow> int \<Rightarrow> error + linked_list_genome" where
  "LinkedListGenome_init tes ctr n =
     (case DLList_init (replicate (nat n) CHR ''-'') of
        Inl e \<Rightarrow> Inl e
      | Inr d \<Rightarrow> Inr \<lparr>genome = d, transposable_elements = tes, tes_counter = ctr\<rparr>)"

definition LinkedListGenome :: "int \<Rightarrow> error + linked_list_genome" where
  "LinkedListGenome n = LinkedListGenome_init [] 1 n"

text \<open>\<open>k\<close> rounds of \<^verbatim>\<open>link = link.next\<close>.\<close>

fun advance :: "nat \<Rightarrow> link list \<Rightarrow> nat option \<Rightarrow> error + nat option" where
  "advance 0 h lnk = Inr lnk"
| "advance (Suc k) h lnk =
     (case lnk of None \<Rightarrow> Inl AttributeError | Some a \<Rightarrow> advance k h (nxt (h ! a)))"

text \<open>\<open>k\<close> rounds of \<^verbatim>\<open>link.val = 'x'; link = link.next\<close>.\<close>

fun overwrite :: "nat \<Rightarrow> link list \<Rightarrow> nat option \<Rightarrow> error + link list" where
  "overwrite 0 h lnk = Inr h"
| "overwrite (Suc k) h lnk =
     (case lnk of
        None \<Rightarrow> Inl AttributeError
      | Some a \<Rightarrow> overwrite k (h[a := (h ! a)\<lparr>val := Some CHR ''x''\<rparr>]) (nxt (h ! a)))"

text \<open>
  The \<^verbatim>\<open>for id, info in ...items()\<close> loop of \<^verbatim>\<open>disable_te\<close>: at the entry of \<^verbatim>\<open>te\<close> the
  link is moved on until \<^verbatim>\<open>active_counter\<close> equals the recorded start. A start below the
  counter is never reached: the walk goes on for ever, unless it runs into \<^verbatim>\<open>None\<close>, which
  it does within one step more than the store has links, or never.
\<close>

fun LinkedListGenome_disable_seek ::
  "int \<Rightarrow> te_dict \<Rightarrow> link list \<Rightarrow> nat option \<Rightarrow> int \<Rightarrow> error + nat option" where
  "LinkedListGenome_disable_seek te [] h lnk active_counter = Inr lnk"
| "LinkedListGenome_disable_seek te ((i, (s, l)) # items) h lnk active_counter =
     (if i = te then
        (if s < active_counter then
           (case advance (Suc (length h)) h lnk of
              Inl e \<Rightarrow> Inl e
            | Inr _ \<Rightarrow> Inl Nontermination)
         else (case advance (nat (s - active_counter)) h lnk of
                 Inl e \<Rightarrow> Inl e
               | Inr lnk' \<Rightarrow> LinkedListGenome_disable_seek te items h lnk' s))
      else LinkedListGenome_disable_seek te items h lnk active_counter)"

definition LinkedListGenome_disable_te ::
  "linked_list_genome \<Rightarrow> int \<Rightarrow> error + linked_list_genome" where
  "LinkedListGenome_disable_te g te =
     (case map_of (transposable_elements g) te of
        None \<Rightarrow> Inl KeyError
      | Some (s, how_long) \<Rightarrow>
          let d = genome g; h = store d in
          (case LinkedListGenome_disable_seek te (transposable_elements g) h
                  (nxt (h ! head d)) 0 of
             Inl e \<Rightarrow> Inl e
           | Inr lnk \<Rightarrow>
               if how_long < 0 then
                 (case overwrite (Suc (length h)) h lnk of
                    Inl e \<Rightarrow> Inl e
                  | Inr _ \<Rightarrow> Inl Nontermination)
               else (case overwrite (nat how_long) h lnk of
                       Inl e \<Rightarrow> Inl e
                     | Inr h' \<Rightarrow>
                         Inr (g\<lparr>genome := d\<lparr>store := h'\<rparr>,
                                transposable_elements :=
                                  dict_pop (transposable_elements g) te\<rparr>))))"

text \<open>
  The loop of \<^verbatim>\<open>insert_te\<close>. It tests \<^verbatim>\<open>link_of_pos.val\<close>, the symbol of the link that
  \<^verbatim>\<open>get_position(pos)\<close> returned, not the symbol at index \<^verbatim>\<open>pos\<close>.
\<close>

fun LinkedListGenome_insert_loop ::
  "int \<Rightarrow> int \<Rightarrow> nat option \<Rightarrow> te_dict \<Rightarrow> linked_list_genome \<Rightarrow> error + linked_list_genome" where
  "LinkedListGenome_insert_loop pos len link_of_pos [] g = Inr g"
| "LinkedListGenome_insert_loop pos len link_of_pos ((i, (s, l)) # items) g =
     (case link_of_pos of
        None \<Rightarrow> Inl AttributeError
      | Some a \<Rightarrow>
          if val (store (genome g) ! a) = Some CHR ''A'' \<and> s \<le> pos \<and> pos \<le> s + l
          then LinkedListGenome_disable_te g i
          else if s > pos then
            LinkedListGenome_insert_loop pos len link_of_pos items
              (g\<lparr>transposable_elements := dict_set (transposable_elements g) i (s + len, l)\<rparr>)
          else LinkedListGenome_insert_loop pos len link_of_pos items g)"

definition LinkedListGenome_insert_te ::
  "linked_list_genome \<Rightarrow> int \<Rightarrow> int \<Rightarrow> error + (int \<times> linked_list_genome)" where
  "LinkedListGenome_insert_te g pos len =
     (let link_of_pos = get_position (genome g) pos in
      case LinkedListGenome_insert_loop pos len link_of_pos (transposable_elements g) g of
        Inl e \<Rightarrow> Inl e
      | Inr g1 \<Rightarrow>
          (case insert_n_elements (genome g1) link_of_pos len of
             Inl e \<Rightarrow> Inl e
           | Inr d \<Rightarrow>
               let i = tes_counter g1
               in Inr (i, g1\<lparr>genome := d,
                             transposable_elements :=
                               dict_set (transposable_elements g1) i (pos, len),
                             tes_counter := i + 1\<rparr>)))"

definition LinkedListGenome_len :: "linked_list_genome \<Rightarrow> error + nat" where
  "LinkedListGenome_len g = DLList_len (genome g)"

definition LinkedListGenome_copy_te ::
  "linked_list_genome \<Rightarrow> int \<Rightarrow> int \<Rightarrow> error + (int option \<times> linked_list_genome)" where
  "LinkedListGenome_copy_te g te offset =
     (case map_of (transposable_elements g) te of
        None \<Rightarrow> Inr (None, g)
      | Some (pos, l) \<Rightarrow>
          (case LinkedListGenome_len g of
             Inl e \<Rightarrow> Inl e
           | Inr n \<Rightarrow>
               if n = 0 then Inl ZeroDivisionError
               else (case LinkedListGenome_insert_te g ((pos + offset) mod int n) l of
                       Inl e \<Rightarrow> Inl e
                     | Inr (i, g') \<Rightarrow> Inr (Some i, g'))))"

definition LinkedListGenome_active_tes :: "linked_list_genome \<Rightarrow> int list" where
  "LinkedListGenome_active_tes g = map fst (transposable_elements g)"

text \<open>\<^verbatim>\<open>''.join(self.genome)\<close> raises on an item that is not a string.\<close>

definition LinkedListGenome_str :: "linked_list_genome \<Rightarrow> error + string" where
  "LinkedListGenome_str g =
     (case DLList_iter (genome g) of
        Inl e \<Rightarrow> Inl e
      | Inr vs \<Rightarrow> if None \<in> set vs then Inl TypeError else Inr (map the vs))"

section \<open>The Genome interface\<close>

text \<open>
  \<^verbatim>\<open>Genome\<close> is abstract; a genome is an instance of one of its two subclasses and a call
  is dispatched to that subclass. \<^verbatim>\<open>insert_te\<close> returns the new id, \<^verbatim>\<open>copy_te\<close> the new id
  or \<^verbatim>\<open>None\<close>, \<^verbatim>\<open>disable_te\<close> returns \<^verbatim>\<open>None\<close>.
\<close>

datatype genome_impl = ListImpl list_genome | LinkedImpl linked_list_genome

datatype backing = ListBacked | LinkedListBacked

datatype operation = InsertTe int int | CopyTe int int | DisableTe int

fun Genome_new :: "backing \<Rightarrow> int \<Rightarrow> error + genome_impl" where
  "Genome_new ListBacked n = Inr (ListImpl (ListGenome n))"
| "Genome_new LinkedListBacked n =
     (case LinkedListGenome n of Inl e \<Rightarrow> Inl e | Inr g \<Rightarrow> Inr (LinkedImpl g))"

fun Genome_call :: "genome_impl \<Rightarrow> operation \<Rightarrow> error + (int option \<times> genome_impl)" where
  "Genome_call (ListImpl g) (InsertTe pos len) =
     (case ListGenome_insert_te g pos len of
        Inl e \<Rightarrow> Inl e | Inr (i, g') \<Rightarrow> Inr (Some i, ListImpl g'))"
| "Genome_call (ListImpl g) (CopyTe te offset) =
     (case ListGenome_copy_te g te offset of
        Inl e \<Rightarrow> Inl e | Inr (r, g') \<Rightarrow> Inr (r, ListImpl g'))"
| "Genome_call (ListImpl g) (DisableTe te) =
     (case ListGenome_disable_te g te of
        Inl e \<Rightarrow> Inl e | Inr g' \<Rightarrow> Inr (None, ListImpl g'))"
| "Genome_call (LinkedImpl g) (InsertTe pos len) =
     (case LinkedListGenome_insert_te g pos len of
        Inl e \<Rightarrow> Inl e | Inr (i, g') \<Rightarrow> Inr (Some i, LinkedImpl g'))"
| "Genome_call (LinkedImpl g) (CopyTe te offset) =
     (case LinkedListGenome_copy_te g te offset of
        Inl e \<Rightarrow> Inl e | Inr (r, g') \<Rightarrow> Inr (r, LinkedImpl g'))"
| "Genome_call (LinkedImpl g) (DisableTe te) =
     (case LinkedListGenome_disable_te g te of
        Inl e \<Rightarrow> Inl e | Inr g' \<Rightarrow> Inr (None, LinkedImpl g'))"

fun Genome_active_tes :: "genome_impl \<Rightarrow> int list" where
  "Genome_active_tes (ListImpl g) = ListGenome_active_tes g"
| "Genome_active_tes (LinkedImpl g) = LinkedListGenome_active_tes g"

fun Genome_len :: "genome_impl \<Rightarrow> error + nat" where
  "Genome_len (ListImpl g) = Inr (ListGenome_len g)"
| "Genome_len (LinkedImpl g) = LinkedListGenome_len g"

fun Genome_str :: "genome_impl \<Rightarrow> error + string" where
  "Genome_str (ListImpl g) = Inr (ListGenome_str g)"
| "Genome_str (LinkedImpl g) = LinkedListGenome_str g"

fun Genome_tes :: "genome_impl \<Rightarrow> te_dict" where
  "Genome_tes (ListImpl g) = transposable_elements g"
| "Genome_tes (LinkedImpl g) = transposable_elements g"

text \<open>
  A caller's calls, one after the other, with the values they return; an exception ends
  the run.
\<close>

fun calls :: "genome_impl \<Rightarrow> operation list \<Rightarrow> error + (int option list \<times> genome_impl)" where
  "calls g [] = Inr ([], g)"
| "calls g (c # cs) =
     (case Genome_call g c of
        Inl e \<Rightarrow> Inl e
      | Inr (r, g') \<Rightarrow>
          (case calls g' cs of Inl e \<Rightarrow> Inl e | Inr (rs, g'') \<Rightarrow> Inr (r # rs, g'')))"

text \<open>A run on the first genome of a process: construction, then the calls.\<close>

definition session ::
  "backing \<Rightarrow> int \<Rightarrow> operation list \<Rightarrow> error + (int option list \<times> genome_impl)" where
  "session b n cs = (case Genome_new b n of Inl e \<Rightarrow> Inl e | Inr g \<Rightarrow> calls g cs)"

section \<open>Vocabulary of the properties\<close>

text \<open>
  The documented domain of a call: \<^verbatim>\<open>insert_te\<close> takes a position inside the genome and
  a length that is not negative; \<^verbatim>\<open>copy_te\<close> and \<^verbatim>\<open>disable_te\<close> take any id.
\<close>

fun in_domain :: "genome_impl \<Rightarrow> operation \<Rightarrow> bool" where
  "in_domain g (InsertTe pos len) =
     (case Genome_len g of Inl e \<Rightarrow> False | Inr n \<Rightarrow> 0 \<le> pos \<and> pos < int n \<and> 0 \<le> len)"
| "in_domain g (CopyTe te offset) = True"
| "in_domain g (DisableTe te) = True"

text \<open>
  The number of symbols a call is to insert: the length given to \<^verbatim>\<open>insert_te\<close>, the
  recorded length of the element that \<^verbatim>\<open>copy_te\<close> copies (nothing for an id that is not
  active), nothing for \<^verbatim>\<open>disable_te\<close>.
\<close>

fun inserted :: "genome_impl \<Rightarrow> operation \<Rightarrow> int" where
  "inserted g (InsertTe pos len) = len"
| "inserted g (CopyTe te offset) =
     (case map_of (Genome_tes g) te of None \<Rightarrow> 0 | Some (s, l) \<Rightarrow> l)"
| "inserted g (DisableTe te) = 0"

text \<open>
  The genomes a caller can get to when no other instance of the class is in use: the
  first genome of a process, of either class and any size, and whatever a call inside its
  documented domain returns normally.
\<close>

inductive reachable :: "genome_impl \<Rightarrow> bool" where
  first: "Genome_new b n = Inr g \<Longrightarrow> reachable g"
| call: "reachable g \<Longrightarrow> in_domain g c \<Longrightarrow> Genome_call g c = Inr (r, g') \<Longrightarrow> reachable g'"

text \<open>
  The recorded elements of a dictionary lie inside a sequence of length \<open>B\<close>, and no id
  occurs twice.
\<close>

definition tes_within :: "nat \<Rightarrow> te_dict \<Rightarrow> bool" where
  "tes_within B d \<longleftrightarrow>
     distinct (map fst d) \<and>
     (\<forall>(i, (s, l)) \<in> set d. 0 \<le> s \<and> 0 \<le> l \<and> s + l \<le> int B)"

text \<open>
  \<open>chain h a as b\<close>: in the store \<open>h\<close> the \<open>nxt\<close> fields lead from \<open>a\<close> through the links
  \<open>as\<close> to \<open>b\<close>, and the \<open>prev\<close> fields lead back.
\<close>

fun chain :: "link list \<Rightarrow> nat \<Rightarrow> nat list \<Rightarrow> nat \<Rightarrow> bool" where
  "chain h a [] b \<longleftrightarrow> nxt (h ! a) = Some b \<and> prev (h ! b) = Some a"
| "chain h a (c # cs) b \<longleftrightarrow> nxt (h ! a) = Some c \<and> prev (h ! c) = Some a \<and> chain h c cs b"

text \<open>
  \<open>ring d as\<close>: the list \<open>d\<close> is a circle that leaves the dummy head, visits the links
  \<open>as\<close>, each once, and comes back to the head.
\<close>

definition ring :: "dllist \<Rightarrow> nat list \<Rightarrow> bool" where
  "ring d as \<longleftrightarrow>
     head d < length (store d) \<and> (\<forall>a \<in> set as. a < length (store d)) \<and>
     head d \<notin> set as \<and> distinct as \<and> chain (store d) (head d) as (head d)"

text \<open>
  A store is closed when every \<open>nxt\<close> field is \<^verbatim>\<open>None\<close> or the index of a link of the
  store: Python references never dangle.
\<close>

definition closed_store :: "link list \<Rightarrow> bool" where
  "closed_store h \<longleftrightarrow> (\<forall>a < length h. \<forall>b. nxt (h ! a) = Some b \<longrightarrow> b < length h)"

text \<open>
  \<open>needs h hp lnk m\<close>: the walk of \<^verbatim>\<open>__iter__\<close> from \<open>lnk\<close> comes to an end with fuel \<open>m\<close>
  and with no less.
\<close>

definition needs :: "link list \<Rightarrow> nat \<Rightarrow> nat option \<Rightarrow> nat \<Rightarrow> bool" where
  "needs h hp lnk m \<longleftrightarrow>
     iter_from m h hp lnk \<noteq> Inl Nontermination \<and>
     (\<forall>k < m. iter_from k h hp lnk = Inl Nontermination)"

text \<open>The symbols held by the links \<open>as\<close>.\<close>

definition vals :: "link list \<Rightarrow> nat list \<Rightarrow> char option list" where
  "vals h as = map (\<lambda>a. val (h ! a)) as"

text \<open>What every genome reached in this way satisfies.\<close>

fun sound :: "genome_impl \<Rightarrow> bool" where
  "sound (ListImpl g) = tes_within (length (genome g)) (transposable_elements g)"
| "sound (LinkedImpl g) = (\<exists>as. ring (genome g) as)"

section \<open>Circular lists in the store\<close>

text \<open>
  A walk along a chain visits its links in order; the two loops over a ring therefore end
  within the fuel they are given, and return the symbols and the number of the links.
\<close>

lemma bounded_distinct_length:
  assumes "distinct xs" "\<forall>x\<in>set xs. x < (n::nat)"
  shows "length xs \<le> n"
proof -
  have "set xs \<subseteq> {..<n}" using assms(2) by auto
  then have "card (set xs) \<le> card {..<n}" by (intro card_mono) auto
  with assms(1) show ?thesis by (simp add: distinct_card)
qed

lemma chain_append:
  "chain h a (xs @ c # ys) b \<longleftrightarrow> chain h a xs c \<and> chain h c ys b"
  by (induction xs arbitrary: a) auto

lemma chain_frame:
  assumes "\<forall>x\<in>set (a # as). nxt (h' ! x) = nxt (h ! x)"
    and "\<forall>x\<in>set (as @ [b]). prev (h' ! x) = prev (h ! x)"
  shows "chain h' a as b = chain h a as b"
  using assms by (induction as arbitrary: a) auto

lemma chain_prev_last: "chain h a as b \<Longrightarrow> prev (h ! b) = Some (last (a # as))"
  by (induction as arbitrary: a) auto

lemma iter_from_chain:
  "chain h a as hp \<Longrightarrow> hp \<notin> set as \<Longrightarrow> length as < f \<Longrightarrow>
   iter_from f h hp (nxt (h ! a)) = Inr (vals h as)"
proof (induction as arbitrary: a f)
  case Nil
  then obtain f' where "f = Suc f'" by (cases f) auto
  with Nil show ?case by (simp add: vals_def)
next
  case (Cons c cs)
  then obtain f' where f: "f = Suc f'" by (cases f) auto
  from Cons.prems have "iter_from f' h hp (nxt (h ! c)) = Inr (vals h cs)"
    by (intro Cons.IH) (auto simp: f)
  with Cons.prems f show ?case by (simp add: vals_def)
qed

lemma len_from_chain:
  "chain h a as hp \<Longrightarrow> hp \<notin> set as \<Longrightarrow> length as < f \<Longrightarrow>
   len_from f h hp (nxt (h ! a)) n = Inr (n + length as)"
proof (induction as arbitrary: a f n)
  case Nil
  then obtain f' where "f = Suc f'" by (cases f) auto
  with Nil show ?case by simp
next
  case (Cons c cs)
  then obtain f' where f: "f = Suc f'" by (cases f) auto
  from Cons.prems have "len_from f' h hp (nxt (h ! c)) (n + 1) = Inr (n + 1 + length cs)"
    by (intro Cons.IH) (auto simp: f)
  with Cons.prems f show ?case by simp
qed

lemma ring_fuel: "ring d as \<Longrightarrow> length as < length (store d)"
proof -
  assume r: "ring d as"
  then have "distinct (head d # as)" "\<forall>x\<in>set (head d # as). x < length (store d)"
    by (auto simp: ring_def)
  then have "length (head d # as) \<le> length (store d)" by (rule bounded_distinct_length)
  then show ?thesis by simp
qed

lemma DLList_iter_ring:
  assumes "ring d as"
  shows "DLList_iter d = Inr (vals (store d) as)"
proof -
  from assms have "chain (store d) (head d) as (head d)" "head d \<notin> set as"
    by (simp_all add: ring_def)
  then show ?thesis
    unfolding DLList_iter_def using ring_fuel [OF assms] by (rule iter_from_chain)
qed

lemma DLList_len_ring:
  assumes "ring d as"
  shows "DLList_len d = Inr (length as)"
proof -
  from assms have "chain (store d) (head d) as (head d)" "head d \<notin> set as"
    by (simp_all add: ring_def)
  then have "len_from (length (store d)) (store d) (head d) (nxt (store d ! head d)) 0 =
      Inr (0 + length as)"
    using ring_fuel [OF assms] by (rule len_from_chain)
  then show ?thesis by (simp add: DLList_len_def)
qed

section \<open>The size of the store is enough fuel\<close>

text \<open>
  In a closed store, a walk that comes to an end with any fuel at all, by reaching the
  head or by raising, comes to the same end with the size of the store as fuel: the links
  it visits before the end are distinct and none is the head. So \<open>Nontermination\<close> from
  \<open>DLList_iter\<close> or \<open>DLList_len\<close> means that the loop of the source never ends.
\<close>

lemma iter_from_more_fuel:
  "iter_from f h hp lnk \<noteq> Inl Nontermination \<Longrightarrow>
   iter_from (f + k) h hp lnk = iter_from f h hp lnk"
proof (induction f arbitrary: lnk)
  case 0
  then show ?case by simp
next
  case (Suc f)
  show ?case
  proof (cases lnk)
    case None
    then show ?thesis by simp
  next
    case (Some a)
    show ?thesis
    proof (cases "a = hp")
      case True
      with Some show ?thesis by simp
    next
      case False
      with Suc.prems Some have "iter_from f h hp (nxt (h ! a)) \<noteq> Inl Nontermination"
        by (auto split: sum.splits)
      from Suc.IH [OF this] Some False show ?thesis by simp
    qed
  qed
qed

lemma needs_unique: "needs h hp lnk m \<Longrightarrow> needs h hp lnk m' \<Longrightarrow> m = m'"
  unfolding needs_def by (metis linorder_neqE_nat)

lemma needs_pos: "needs h hp lnk m \<Longrightarrow> 0 < m"
  unfolding needs_def by (cases m) auto

lemma needs_step:
  assumes "needs h hp (Some a) (Suc m)" "a \<noteq> hp"
  shows "needs h hp (nxt (h ! a)) m"
proof -
  have eq: "iter_from k h hp (nxt (h ! a)) = Inl Nontermination \<longleftrightarrow>
      iter_from (Suc k) h hp (Some a) = Inl Nontermination" for k
    using assms(2) by (auto split: sum.splits)
  from assms(1) show ?thesis unfolding needs_def using eq
    by (metis Suc_less_eq)
qed

lemma needs_at_head: "needs h hp (Some hp) m \<Longrightarrow> m = 1"
proof -
  assume n: "needs h hp (Some hp) m"
  have "needs h hp (Some hp) 1" by (simp add: needs_def)
  with n show ?thesis by (rule needs_unique)
qed

lemma needs_at_None: "needs h hp None m \<Longrightarrow> m = 1"
proof -
  assume n: "needs h hp None m"
  have "needs h hp None 1" by (simp add: needs_def)
  with n show ?thesis by (rule needs_unique)
qed

lemma needs_visits:
  "needs h hp lnk m \<Longrightarrow> closed_store h \<Longrightarrow> (\<forall>a. lnk = Some a \<longrightarrow> a < length h) \<Longrightarrow>
   \<exists>S. S \<subseteq> {..<length h} - {hp} \<and> card S = m - 1 \<and>
       (\<forall>x\<in>S. \<exists>k\<le>m. needs h hp (Some x) k)"
proof (induction m arbitrary: lnk)
  case 0
  from needs_pos [OF "0.prems"(1)] show ?case by simp
next
  case (Suc m)
  show ?case
  proof (cases "m = 0")
    case True
    have "{} \<subseteq> {..<length h} - {hp} \<and> card ({} :: nat set) = Suc m - 1 \<and>
       (\<forall>x\<in>{}. \<exists>k\<le>Suc m. needs h hp (Some x) k)" using True by simp
    then show ?thesis by (rule exI)
  next
    case False
    have "lnk \<noteq> None"
    proof
      assume "lnk = None"
      with Suc.prems(1) have "needs h hp None (Suc m)" by simp
      from needs_at_None [OF this] False show False by simp
    qed
    then obtain a where a: "lnk = Some a" by (cases lnk) simp_all
    from Suc.prems(1) a have na: "needs h hp (Some a) (Suc m)" by simp
    have ne: "a \<noteq> hp"
    proof
      assume "a = hp"
      with na have "needs h hp (Some hp) (Suc m)" by simp
      from needs_at_head [OF this] False show False by simp
    qed
    from Suc.prems(3) a have al: "a < length h" by simp
    from na ne have nx: "needs h hp (nxt (h ! a)) m" by (rule needs_step)
    have "\<forall>b. nxt (h ! a) = Some b \<longrightarrow> b < length h"
      using Suc.prems(2) al by (simp add: closed_store_def)
    from Suc.IH [OF nx Suc.prems(2) this] obtain S where
      S1: "S \<subseteq> {..<length h} - {hp}" and S2: "card S = m - 1"
      and S3: "\<forall>x\<in>S. \<exists>k\<le>m. needs h hp (Some x) k" by blast
    have fin: "finite S" using S1 by (rule finite_subset) simp
    have "a \<notin> S"
    proof
      assume "a \<in> S"
      with S3 obtain k where k: "k \<le> m" "needs h hp (Some a) k" by blast
      from needs_unique [OF k(2) na] k(1) show False by simp
    qed
    with fin S2 False have c: "card (insert a S) = Suc m - 1" by simp
    have sub: "insert a S \<subseteq> {..<length h} - {hp}" using S1 al ne by simp
    have all: "\<forall>x\<in>insert a S. \<exists>k\<le>Suc m. needs h hp (Some x) k"
    proof
      fix x assume "x \<in> insert a S"
      then consider "x = a" | "x \<in> S" by blast
      then show "\<exists>k\<le>Suc m. needs h hp (Some x) k"
      proof cases
        case 1
        with na show ?thesis by blast
      next
        case 2
        with S3 obtain k where "k \<le> m" "needs h hp (Some x) k" by blast
        then have "k \<le> Suc m \<and> needs h hp (Some x) k" by simp
        then show ?thesis by (rule exI)
      qed
    qed
    from sub c all show ?thesis by blast
  qed
qed

lemma needs_bounded:
  assumes "needs h hp lnk m" "closed_store h" "hp < length h"
    "\<forall>a. lnk = Some a \<longrightarrow> a < length h"
  shows "m \<le> length h"
proof -
  from needs_visits [OF assms(1,2,4)] obtain S where
    S: "S \<subseteq> {..<length h} - {hp}" "card S = m - 1" by blast
  have "card S \<le> card ({..<length h} - {hp})" using S(1) by (intro card_mono) auto
  also have "\<dots> = length h - 1" using assms(3) by simp
  finally show ?thesis using S(2) assms(3) by simp
qed

lemma needs_exists:
  assumes "iter_from f h hp lnk \<noteq> Inl Nontermination"
  shows "\<exists>m\<le>f. needs h hp lnk m"
proof -
  let ?P = "\<lambda>m. iter_from m h hp lnk \<noteq> Inl Nontermination"
  have "?P (LEAST m. ?P m)" using assms by (rule LeastI)
  moreover have "\<forall>k < (LEAST m. ?P m). \<not> ?P k" using not_less_Least by blast
  moreover have "(LEAST m. ?P m) \<le> f" using assms by (rule Least_le)
  ultimately show ?thesis unfolding needs_def by blast
qed

lemma store_size_is_enough_fuel:
  assumes "closed_store h" "hp < length h" "\<forall>a. lnk = Some a \<longrightarrow> a < length h"
    and "iter_from f h hp lnk \<noteq> Inl Nontermination"
  shows "iter_from (length h) h hp lnk = iter_from f h hp lnk"
proof -
  from needs_exists [OF assms(4)] obtain m where m: "m \<le> f" "needs h hp lnk m" by blast
  from needs_bounded [OF m(2) assms(1,2,3)] have ml: "m \<le> length h" .
  from m(2) have t: "iter_from m h hp lnk \<noteq> Inl Nontermination" by (simp add: needs_def)
  from iter_from_more_fuel [OF t, of "f - m"] m(1)
  have 1: "iter_from f h hp lnk = iter_from m h hp lnk" by simp
  from iter_from_more_fuel [OF t, of "length h - m"] ml
  have 2: "iter_from (length h) h hp lnk = iter_from m h hp lnk" by simp
  from 1 2 show ?thesis by simp
qed

lemma len_from_iter_from:
  "len_from f h hp lnk n =
   (case iter_from f h hp lnk of Inl e \<Rightarrow> Inl e | Inr vs \<Rightarrow> Inr (n + length vs))"
  by (induction f arbitrary: lnk n) (auto split: option.splits sum.splits)


lemma DLList_iter_any_fuel:
  assumes "closed_store (store d)" "head d < length (store d)"
    and "iter_from f (store d) (head d) (nxt (store d ! head d)) \<noteq> Inl Nontermination"
  shows "DLList_iter d = iter_from f (store d) (head d) (nxt (store d ! head d))"
proof -
  have "\<forall>a. nxt (store d ! head d) = Some a \<longrightarrow> a < length (store d)"
    using assms(1,2) by (simp add: closed_store_def)
  from store_size_is_enough_fuel [OF assms(1,2) this assms(3)] show ?thesis
    by (simp add: DLList_iter_def)
qed

lemma DLList_len_any_fuel:
  assumes "closed_store (store d)" "head d < length (store d)"
    and "len_from f (store d) (head d) (nxt (store d ! head d)) 0 \<noteq> Inl Nontermination"
  shows "DLList_len d = len_from f (store d) (head d) (nxt (store d ! head d)) 0"
proof -
  let ?h = "store d" and ?l = "nxt (store d ! head d)"
  have v: "\<forall>a. ?l = Some a \<longrightarrow> a < length ?h"
    using assms(1,2) by (simp add: closed_store_def)
  have "iter_from f ?h (head d) ?l \<noteq> Inl Nontermination"
    using assms(3) by (auto simp: len_from_iter_from)
  from store_size_is_enough_fuel [OF assms(1,2) v this] show ?thesis
    by (simp add: DLList_len_def len_from_iter_from)
qed

section \<open>Splicing a link into a ring\<close>

text \<open>
  \<^verbatim>\<open>insert_after\<close> on a link of a ring gives a ring with the new link right after it; the
  symbols of the old links are untouched.
\<close>

lemma insert_after_fields:
  assumes "a < length h" "nxt (h ! a) = Some c" "c < length h"
  obtains h' where "insert_after h (Some a) v = Inr h'"
    and "length h' = Suc (length h)"
    and "\<And>x. x < length h \<Longrightarrow> nxt (h' ! x) = (if x = a then Some (length h) else nxt (h ! x))"
    and "\<And>x. x < length h \<Longrightarrow> prev (h' ! x) = (if x = c then Some (length h) else prev (h ! x))"
    and "\<And>x. x < length h \<Longrightarrow> val (h' ! x) = val (h ! x)"
    and "h' ! length h = \<lparr>val = v, prev = Some a, nxt = Some c\<rparr>"
proof -
  let ?h1 = "h @ [\<lparr>val = v, prev = Some a, nxt = Some c\<rparr>]"
  let ?h2 = "?h1[a := (?h1 ! a)\<lparr>nxt := Some (length h)\<rparr>]"
  let ?h' = "?h2[c := (?h2 ! c)\<lparr>prev := Some (length h)\<rparr>]"
  have 1: "insert_after h (Some a) v = Inr ?h'"
    using assms by (simp add: insert_after_def Let_def nth_append)
  show thesis
  proof (rule that [OF 1])
    show "length ?h' = Suc (length h)" by simp
    show "\<And>x. x < length h \<Longrightarrow> nxt (?h' ! x) = (if x = a then Some (length h) else nxt (h ! x))"
      using assms by (auto simp: nth_list_update nth_append)
    show "\<And>x. x < length h \<Longrightarrow> prev (?h' ! x) = (if x = c then Some (length h) else prev (h ! x))"
      using assms by (auto simp: nth_list_update nth_append)
    show "\<And>x. x < length h \<Longrightarrow> val (?h' ! x) = val (h ! x)"
      using assms by (auto simp: nth_list_update nth_append)
    show "?h' ! length h = \<lparr>val = v, prev = Some a, nxt = Some c\<rparr>"
      using assms by (auto simp: nth_list_update nth_append)
  qed
qed


lemma chain_nxt: "chain h a as b \<Longrightarrow> nxt (h ! a) = Some (hd (as @ [b]))"
  by (cases as) auto

lemma chain_insert_front:
  assumes ch: "chain h a as b"
    and bnd: "a < length h" "b < length h" "\<forall>x\<in>set as. x < length h"
    and dist: "distinct as" "a \<notin> set as" "b \<notin> set as"
    and c: "c = hd (as @ [b])"
    and N: "\<And>x. x < length h \<Longrightarrow>
              nxt (h' ! x) = (if x = a then Some (length h) else nxt (h ! x))"
    and P: "\<And>x. x < length h \<Longrightarrow>
              prev (h' ! x) = (if x = c then Some (length h) else prev (h ! x))"
    and new: "h' ! length h = \<lparr>val = v, prev = Some a, nxt = Some c\<rparr>"
  shows "chain h' a (length h # as) b"
proof (cases as)
  case Nil
  with c have "c = b" by simp
  with Nil bnd N [of a] P [of b] new show ?thesis by simp
next
  case (Cons c' cs)
  with c have cc: "c = c'" by simp
  have "chain h' c' cs b = chain h c' cs b"
  proof (rule chain_frame)
    show "\<forall>x\<in>set (c' # cs). nxt (h' ! x) = nxt (h ! x)"
      using Cons bnd dist N by auto
    show "\<forall>x\<in>set (cs @ [b]). prev (h' ! x) = prev (h ! x)"
      using Cons bnd dist P cc by auto
  qed
  moreover have "chain h c' cs b" using ch Cons by simp
  moreover have "c' < length h" using bnd Cons by simp
  ultimately show ?thesis
    using Cons bnd N [of a] P [of c'] new cc by simp
qed

lemma insert_after_ring:
  assumes r: "ring d as" and split: "head d # as = xs @ a # ys"
  obtains h' where "insert_after (store d) (Some a) v = Inr h'"
    and "ring (d\<lparr>store := h'\<rparr>) (tl (xs @ a # length (store d) # ys))"
    and "length h' = Suc (length (store d))"
    and "nxt (h' ! a) = Some (length (store d))"
    and "\<And>x. x < length (store d) \<Longrightarrow> val (h' ! x) = val (store d ! x)"
    and "val (h' ! length (store d)) = v"
proof -
  let ?h = "store d" and ?hp = "head d"
  let ?new = "length ?h"
  from r have hp: "?hp < length ?h" and bnd: "\<forall>x\<in>set as. x < length ?h"
    and nin: "?hp \<notin> set as" and dist: "distinct as" and ch: "chain ?h ?hp as ?hp"
    by (simp_all add: ring_def)
  have dall: "distinct (xs @ a # ys)" using split nin dist by (metis distinct.simps(2))
  have ball: "\<forall>x\<in>set (xs @ a # ys). x < length ?h"
    using split hp bnd by (metis set_ConsD)
  have a: "a < length ?h" using ball by simp
  have tail: "chain ?h a ys ?hp \<and> ?hp \<notin> set ys"
  proof (cases xs)
    case Nil
    with split ch nin show ?thesis by simp
  next
    case (Cons x xs')
    with split have "as = xs' @ a # ys" by simp
    with ch nin show ?thesis by (simp add: chain_append)
  qed
  define c where "c = hd (ys @ [?hp])"
  have nc: "nxt (?h ! a) = Some c" using tail chain_nxt c_def by blast
  have c: "c < length ?h" using ball hp by (cases ys) (auto simp: c_def)
  obtain h' where ins: "insert_after ?h (Some a) v = Inr h'"
    and len: "length h' = Suc ?new"
    and N: "\<And>x. x < ?new \<Longrightarrow> nxt (h' ! x) = (if x = a then Some ?new else nxt (?h ! x))"
    and P: "\<And>x. x < ?new \<Longrightarrow> prev (h' ! x) = (if x = c then Some ?new else prev (?h ! x))"
    and V: "\<And>x. x < ?new \<Longrightarrow> val (h' ! x) = val (?h ! x)"
    and new: "h' ! ?new = \<lparr>val = v, prev = Some a, nxt = Some c\<rparr>"
    using insert_after_fields [OF a nc c] by metis
  have front: "chain h' a (?new # ys) ?hp"
  proof (rule chain_insert_front [where h = ?h and c = c and v = v])
    show "chain ?h a ys ?hp" using tail by simp
    show "a < ?new" by (rule a)
    show "?hp < ?new" by (rule hp)
    show "\<forall>x\<in>set ys. x < ?new" using ball by simp
    show "distinct ys" "a \<notin> set ys" using dall by simp_all
    show "?hp \<notin> set ys" using tail by simp
    show "c = hd (ys @ [?hp])" by (rule c_def)
  qed (use N P new in auto)
  have whole: "chain h' ?hp (tl (xs @ a # ?new # ys)) ?hp"
  proof (cases xs)
    case Nil
    with split front show ?thesis by simp
  next
    case (Cons x xs')
    with split have x: "x = ?hp" and as: "as = xs' @ a # ys" by simp_all
    from ch as have pre: "chain ?h ?hp xs' a" by (simp add: chain_append)
    have cnot: "c \<notin> set (xs' @ [a])"
    proof (cases ys)
      case Nil
      with c_def nin as show ?thesis by simp
    next
      case (Cons y ys')
      with c_def dist as show ?thesis by auto
    qed
    have "chain h' ?hp xs' a = chain ?h ?hp xs' a"
    proof (rule chain_frame)
      show "\<forall>x\<in>set (?hp # xs'). nxt (h' ! x) = nxt (?h ! x)"
        using N hp bnd as dist nin by auto
      show "\<forall>x\<in>set (xs' @ [a]). prev (h' ! x) = prev (?h ! x)"
        using P a bnd as cnot by auto
    qed
    with pre front Cons show ?thesis by (simp add: chain_append)
  qed
  have set_new: "set (tl (xs @ a # ?new # ys)) = insert ?new (set as)"
    using split by (cases xs) auto
  have dist_new: "distinct (tl (xs @ a # ?new # ys))"
    using split dist bnd by (cases xs) auto
  have "ring (d\<lparr>store := h'\<rparr>) (tl (xs @ a # ?new # ys))"
    unfolding ring_def using whole set_new dist_new hp bnd nin len by auto
  moreover have "nxt (h' ! a) = Some ?new" using N [OF a] by simp
  moreover have "val (h' ! ?new) = v" using new by simp
  ultimately show thesis using that ins len V by blast
qed


section \<open>Construction, positions and repeated insertion\<close>

lemma vals_append: "vals h (xs @ ys) = vals h xs @ vals h ys"
  by (simp add: vals_def)

lemma vals_cong: "\<forall>x\<in>set as. val (h' ! x) = val (h ! x) \<Longrightarrow> vals h' as = vals h as"
  by (simp add: vals_def)

lemma DLList_fill_ring:
  "ring d as \<Longrightarrow>
   \<exists>d' as'. DLList_fill d vs = Inr d' \<and> ring d' as' \<and>
     vals (store d') as' = vals (store d) as @ map Some vs"
proof (induction vs arbitrary: d as)
  case Nil
  then show ?case by auto
next
  case (Cons v vs)
  let ?h = "store d"
  let ?a = "last (head d # as)"
  from Cons.prems have ch: "chain ?h (head d) as (head d)"
    and bnd: "\<forall>x\<in>set as. x < length ?h" by (simp_all add: ring_def)
  have pl: "prev (?h ! head d) = Some ?a" using ch by (rule chain_prev_last)
  have split: "head d # as = butlast (head d # as) @ ?a # []"
    by (metis append_butlast_last_id list.distinct(1))
  obtain h' where ins: "insert_after ?h (Some ?a) (Some v) = Inr h'"
    and r': "ring (d\<lparr>store := h'\<rparr>) (tl (butlast (head d # as) @ ?a # length ?h # []))"
    and V: "\<And>x. x < length ?h \<Longrightarrow> val (h' ! x) = val (?h ! x)"
    and new: "val (h' ! length ?h) = Some v"
    using insert_after_ring [OF Cons.prems split, of "Some v"] by metis
  have eq: "tl (butlast (head d # as) @ ?a # length ?h # []) = as @ [length ?h]"
  proof -
    have "butlast (head d # as) @ ?a # length ?h # [] = (head d # as) @ [length ?h]"
      using split by (metis append.assoc append_Cons append_Nil)
    then show ?thesis by simp
  qed
  from r' eq have r'': "ring (d\<lparr>store := h'\<rparr>) (as @ [length ?h])" by simp
  from Cons.IH [OF r''] obtain d' as' where
    fill: "DLList_fill (d\<lparr>store := h'\<rparr>) vs = Inr d'" and rd: "ring d' as'"
    and vs: "vals (store d') as' = vals h' (as @ [length ?h]) @ map Some vs"
    by auto
  have "vals h' as = vals ?h as" using bnd V by (intro vals_cong) auto
  then have "vals h' (as @ [length ?h]) = vals ?h as @ [Some v]"
    using new by (simp add: vals_def)
  with vs have "vals (store d') as' = vals ?h as @ map Some (v # vs)" by simp
  moreover have "DLList_fill d (v # vs) = Inr d'" using pl ins fill by simp
  ultimately show ?case using rd by blast
qed

lemma DLList_init_ring:
  "\<exists>d as. DLList_init vs = Inr d \<and> ring d as \<and> vals (store d) as = map Some vs"
proof -
  let ?d0 = "\<lparr>store = [\<lparr>val = None, prev = Some 0, nxt = Some 0\<rparr>], head = 0\<rparr>"
  have "ring ?d0 []" by (simp add: ring_def)
  from DLList_fill_ring [OF this, of vs] show ?thesis
    by (auto simp: DLList_init_def vals_def)
qed

lemma chain_nxt_in:
  "chain h a as b \<Longrightarrow> x \<in> set (a # as) \<Longrightarrow> \<exists>y\<in>set (as @ [b]). nxt (h ! x) = Some y"
  by (induction as arbitrary: a) auto

lemma ring_nxt_in:
  assumes "ring d as" "x \<in> set (head d # as)"
  shows "\<exists>y\<in>set (head d # as). nxt (store d ! x) = Some y"
proof -
  from assms(1) have "chain (store d) (head d) as (head d)" by (simp add: ring_def)
  from chain_nxt_in [OF this assms(2)] show ?thesis by auto
qed

lemma walk_ring:
  "ring d as \<Longrightarrow> x \<in> set (head d # as) \<Longrightarrow>
   \<exists>y\<in>set (head d # as). walk k (store d) (Some x) = Some y"
proof (induction k arbitrary: x)
  case 0
  then show ?case by simp
next
  case (Suc k)
  from ring_nxt_in [OF Suc.prems] obtain y where
    "y \<in> set (head d # as)" "nxt (store d ! x) = Some y" by blast
  with Suc.IH [OF Suc.prems(1), of y] show ?case by simp
qed

lemma get_position_ring:
  assumes "ring d as"
  shows "get_position d p = None \<or> (\<exists>y\<in>set (head d # as). get_position d p = Some y)"
proof (cases "p < 1")
  case True
  then show ?thesis by (simp add: get_position_def)
next
  case False
  from ring_nxt_in [OF assms, of "head d"] obtain y where
    y: "y \<in> set (head d # as)" "nxt (store d ! head d) = Some y" by auto
  from walk_ring [OF assms y(1), of "nat (p - 1)"] y(2) False show ?thesis
    by (simp add: get_position_def)
qed

lemma insert_n_ring:
  "ring d as \<Longrightarrow> a \<in> set (head d # as) \<Longrightarrow>
   \<exists>h' as'. insert_n k (store d) (Some a) = Inr h' \<and> ring (d\<lparr>store := h'\<rparr>) as' \<and>
     length as' = length as + k"
proof (induction k arbitrary: d as a)
  case 0
  then show ?case by auto
next
  case (Suc k)
  from Suc.prems(2) obtain xs ys where split: "head d # as = xs @ a # ys"
    by (meson split_list)
  let ?new = "length (store d)"
  let ?as1 = "tl (xs @ a # ?new # ys)"
  obtain h1 where ins: "insert_after (store d) (Some a) (Some CHR ''A'') = Inr h1"
    and r1: "ring (d\<lparr>store := h1\<rparr>) ?as1"
    and nx: "nxt (h1 ! a) = Some ?new"
    using insert_after_ring [OF Suc.prems(1) split, of "Some CHR ''A''"] by metis
  have len1: "length ?as1 = Suc (length as)"
  proof -
    have "length (xs @ a # ys) = Suc (length as)" using split by (metis length_Cons)
    then show ?thesis by simp
  qed
  have mem: "?new \<in> set (head (d\<lparr>store := h1\<rparr>) # ?as1)" by (cases xs) auto
  from Suc.IH [OF r1 mem] obtain h' as' where
    "insert_n k h1 (Some ?new) = Inr h'" "ring (d\<lparr>store := h'\<rparr>) as'"
    "length as' = length ?as1 + k" by auto
  with ins nx len1 show ?case by auto
qed

section \<open>Overwriting symbols keeps the ring\<close>

lemma upd_val_fields:
  "nxt ((h[a := (h ! a)\<lparr>val := v\<rparr>]) ! x) = nxt (h ! x) \<and>
   prev ((h[a := (h ! a)\<lparr>val := v\<rparr>]) ! x) = prev (h ! x)"
  by (cases "a < length h") (auto simp: nth_list_update list_update_beyond not_less)

lemma overwrite_fields:
  "overwrite k h lnk = Inr h' \<Longrightarrow>
   length h' = length h \<and> (\<forall>x. nxt (h' ! x) = nxt (h ! x) \<and> prev (h' ! x) = prev (h ! x))"
proof (induction k arbitrary: h lnk)
  case 0
  then show ?case by simp
next
  case (Suc k)
  then obtain a where lnk: "lnk = Some a" by (cases lnk) auto
  let ?h1 = "h[a := (h ! a)\<lparr>val := Some CHR ''x''\<rparr>]"
  from Suc.prems lnk have "overwrite k ?h1 (nxt (h ! a)) = Inr h'" by simp
  from Suc.IH [OF this] show ?case by (simp add: upd_val_fields)
qed

lemma ring_fields_cong:
  assumes "length h' = length (store d)"
    and "\<forall>x. nxt (h' ! x) = nxt (store d ! x) \<and> prev (h' ! x) = prev (store d ! x)"
  shows "ring (d\<lparr>store := h'\<rparr>) as = ring d as"
proof -
  have "chain h' (head d) as (head d) = chain (store d) (head d) as (head d)"
    by (rule chain_frame) (use assms(2) in auto)
  with assms(1) show ?thesis by (simp add: ring_def)
qed

lemma LinkedListGenome_disable_te_ring:
  assumes "LinkedListGenome_disable_te g te = Inr g'" "ring (genome g) as"
  shows "ring (genome g') as \<and> head (genome g') = head (genome g)"
proof -
  from assms(1) obtain k lnk h' where
    ow: "overwrite k (store (genome g)) lnk = Inr h'"
    and g': "genome g' = (genome g)\<lparr>store := h'\<rparr>"
    by (auto simp: LinkedListGenome_disable_te_def Let_def
        split: option.splits sum.splits if_splits)
  from overwrite_fields [OF ow] assms(2) g' show ?thesis
    by (simp add: ring_fields_cong)
qed

lemma LinkedListGenome_insert_loop_ring:
  "LinkedListGenome_insert_loop pos len lnk items g = Inr g1 \<Longrightarrow> ring (genome g) as \<Longrightarrow>
   ring (genome g1) as \<and> head (genome g1) = head (genome g)"
proof (induction items arbitrary: g)
  case Nil
  then show ?case by simp
next
  case (Cons item items)
  obtain i s l where item: "item = (i, (s, l))" by (cases item) auto
  let ?g = "g\<lparr>transposable_elements := dict_set (transposable_elements g) i (s + len, l)\<rparr>"
  from Cons.prems(1) item consider
    (disable) "LinkedListGenome_disable_te g i = Inr g1"
    | (shift) "LinkedListGenome_insert_loop pos len lnk items ?g = Inr g1"
    | (skip) "LinkedListGenome_insert_loop pos len lnk items g = Inr g1"
    by (auto split: option.splits if_splits)
  then show ?case
  proof cases
    case disable
    then show ?thesis using Cons.prems(2) by (rule LinkedListGenome_disable_te_ring)
  next
    case shift
    from Cons.IH [OF this] Cons.prems(2) show ?thesis by simp
  next
    case skip
    from Cons.IH [OF this] Cons.prems(2) show ?thesis by simp
  qed
qed

lemma LinkedListGenome_insert_te_ring:
  assumes "LinkedListGenome_insert_te g pos len = Inr (i, g')" "ring (genome g) as"
  shows "0 \<le> len \<and> (\<exists>as'. ring (genome g') as' \<and> length as' = length as + nat len)"
proof -
  let ?lnk = "get_position (genome g) pos"
  from assms(1) obtain g1 d where
    loop: "LinkedListGenome_insert_loop pos len ?lnk (transposable_elements g) g = Inr g1"
    and ins: "insert_n_elements (genome g1) ?lnk len = Inr d"
    and g': "genome g' = d"
    by (auto simp: LinkedListGenome_insert_te_def Let_def split: sum.splits)
  have r1: "ring (genome g1) as" and hd1: "head (genome g1) = head (genome g)"
    using LinkedListGenome_insert_loop_ring [OF loop assms(2)] by simp_all
  from ins have len: "0 \<le> len"
    by (auto simp: insert_n_elements_def split: if_splits option.splits)
  with ins obtain h where n: "insert_n (nat len) (store (genome g1)) ?lnk = Inr h"
    and d: "d = (genome g1)\<lparr>store := h\<rparr>"
    by (auto simp: insert_n_elements_def split: sum.splits)
  have "\<exists>as'. ring d as' \<and> length as' = length as + nat len"
  proof (cases "nat len")
    case 0
    with n d r1 show ?thesis by auto
  next
    case (Suc k)
    with n obtain a where a: "?lnk = Some a"
      by (cases ?lnk) (auto simp: insert_after_def)
    with get_position_ring [OF assms(2), of pos] hd1
    have "a \<in> set (head (genome g1) # as)" by auto
    from insert_n_ring [OF r1 this, of "nat len"] n a d show ?thesis by auto
  qed
  with len g' show ?thesis by simp
qed


section \<open>Slices and dictionaries of ListGenome\<close>

lemma length_setslice_within:
  assumes "0 \<le> s" "0 \<le> l" "s + l \<le> int (length xs)" "length ys = nat l"
  shows "length (py_setslice xs s (s + l) ys) = length xs"
proof -
  have lo: "slice_bound (length xs) s = nat s" using assms by (simp add: slice_bound_def)
  have hi: "slice_bound (length xs) (s + l) = nat s + nat l"
    using assms by (simp add: slice_bound_def nat_add_distrib)
  show ?thesis using assms by (simp add: py_setslice_def Let_def lo hi)
qed

lemma length_setslice_insert:
  assumes "0 \<le> p" "p \<le> int (length xs)"
  shows "length (py_setslice xs p p ys) = length xs + length ys"
proof -
  have lo: "slice_bound (length xs) p = nat p" using assms by (simp add: slice_bound_def)
  show ?thesis using assms by (simp add: py_setslice_def Let_def lo)
qed

lemma dict_set_keys:
  "map fst (dict_set d k v) = (if k \<in> fst ` set d then map fst d else map fst d @ [k])"
  by (induction d) force+

lemma dict_set_distinct: "distinct (map fst d) \<Longrightarrow> distinct (map fst (dict_set d k v))"
  by (simp add: dict_set_keys)

lemma dict_set_subset: "set (dict_set d k v) \<subseteq> insert (k, v) (set d)"
  by (induction d) (auto split: if_splits)

lemma map_of_dict_set: "map_of (dict_set d k v) k' = (if k' = k then Some v else map_of d k')"
  by (induction d) auto

lemma dict_pop_subset: "set (dict_pop d k) \<subseteq> set d"
  by (induction d) (auto split: if_splits)

lemma dict_pop_distinct: "distinct (map fst d) \<Longrightarrow> distinct (map fst (dict_pop d k))"
proof (induction d)
  case Nil
  then show ?case by simp
next
  case (Cons e d)
  have "fst ` set (dict_pop d k) \<subseteq> fst ` set d" using dict_pop_subset by (rule image_mono)
  with Cons show ?case by (cases e) auto
qed

lemma tes_within_set:
  assumes "tes_within B d" "0 \<le> s" "0 \<le> l" "s + l \<le> int B"
  shows "tes_within B (dict_set d k (s, l))"
  using assms dict_set_subset [of d k "(s, l)"]
  by (auto simp: tes_within_def dict_set_distinct)

lemma tes_within_pop: "tes_within B d \<Longrightarrow> tes_within B (dict_pop d k)"
  using dict_pop_subset [of d k] by (auto simp: tes_within_def dict_pop_distinct)

lemma tes_within_mono: "tes_within B d \<Longrightarrow> B \<le> B' \<Longrightarrow> tes_within B' d"
  by (fastforce simp: tes_within_def)

lemma tes_within_lookup:
  "tes_within B d \<Longrightarrow> map_of d k = Some (s, l) \<Longrightarrow> 0 \<le> s \<and> 0 \<le> l \<and> s + l \<le> int B"
  by (auto simp: tes_within_def dest!: map_of_SomeD)

section \<open>The recorded elements of a ListGenome stay inside it\<close>

lemma ListGenome_disable_te_within:
  assumes "ListGenome_disable_te g te = Inr g'"
    and "map_of (transposable_elements g) te = Some (s, l)"
    and "0 \<le> s" "0 \<le> l" "s + l \<le> int (length (genome g))"
  shows "length (genome g') = length (genome g) \<and>
         transposable_elements g' = dict_pop (transposable_elements g) te"
  using assms by (auto simp: ListGenome_disable_te_def length_setslice_within)

lemma ListGenome_insert_loop_within:
  "ListGenome_insert_loop pos len items g = Inr g1 \<Longrightarrow> 0 \<le> len \<Longrightarrow>
   tes_within (length (genome g) + nat len) (transposable_elements g) \<Longrightarrow>
   distinct (map fst items) \<Longrightarrow>
   \<forall>(i, v)\<in>set items. map_of (transposable_elements g) i = Some v \<Longrightarrow>
   tes_within (length (genome g)) items \<Longrightarrow>
   length (genome g1) = length (genome g) \<and>
   tes_within (length (genome g) + nat len) (transposable_elements g1)"
proof (induction items arbitrary: g)
  case Nil
  then show ?case by simp
next
  case (Cons item items)
  obtain i s l where item: "item = (i, (s, l))" by (cases item) auto
  let ?g = "g\<lparr>transposable_elements := dict_set (transposable_elements g) i (s + len, l)\<rparr>"
  from Cons.prems(6) item have sl: "0 \<le> s" "0 \<le> l" "s + l \<le> int (length (genome g))"
    and rest: "tes_within (length (genome g)) items"
    by (auto simp: tes_within_def)
  from Cons.prems(5) item have look: "map_of (transposable_elements g) i = Some (s, l)"
    by simp
  from Cons.prems(1) item consider
    (disable) "ListGenome_disable_te g i = Inr g1"
    | (shift) "ListGenome_insert_loop pos len items ?g = Inr g1"
    | (skip) "ListGenome_insert_loop pos len items g = Inr g1"
    by (auto split: sum.splits if_splits)
  then show ?case
  proof cases
    case disable
    from ListGenome_disable_te_within [OF disable look sl] Cons.prems(3)
    show ?thesis by (simp add: tes_within_pop)
  next
    case shift
    have "length (genome g1) = length (genome ?g) \<and>
      tes_within (length (genome ?g) + nat len) (transposable_elements g1)"
    proof (rule Cons.IH [OF shift Cons.prems(2)])
      show "tes_within (length (genome ?g) + nat len) (transposable_elements ?g)"
        using Cons.prems(2,3) sl by (simp add: tes_within_set)
      show "distinct (map fst items)" using Cons.prems(4) by simp
      show "\<forall>(j, v)\<in>set items. map_of (transposable_elements ?g) j = Some v"
        using Cons.prems(4,5) item by (auto simp: map_of_dict_set rev_image_eqI)
      show "tes_within (length (genome ?g)) items" using rest by simp
    qed
    then show ?thesis by simp
  next
    case skip
    show ?thesis
    proof (rule Cons.IH [OF skip Cons.prems(2,3)])
      show "distinct (map fst items)" using Cons.prems(4) by simp
      show "\<forall>(j, v)\<in>set items. map_of (transposable_elements g) j = Some v"
        using Cons.prems(5) by simp
      show "tes_within (length (genome g)) items" by (rule rest)
    qed
  qed
qed

lemma ListGenome_insert_te_within:
  assumes ins: "ListGenome_insert_te g pos len = Inr (i, g')"
    and w: "tes_within (length (genome g)) (transposable_elements g)"
    and dom: "0 \<le> pos" "pos \<le> int (length (genome g))" "0 \<le> len"
  shows "length (genome g') = length (genome g) + nat len \<and>
         tes_within (length (genome g')) (transposable_elements g')"
proof -
  let ?L = "length (genome g)"
  from ins obtain g1 where
    loop: "ListGenome_insert_loop pos len (transposable_elements g) g = Inr g1"
    and gen: "genome g' = py_setslice (genome g1) pos pos (replicate (nat len) CHR ''A'')"
    and tes: "transposable_elements g' =
        dict_set (transposable_elements g1) (tes_counter g1) (pos, len)"
    by (auto simp: ListGenome_insert_te_def Let_def split: sum.splits)
  have "length (genome g1) = ?L \<and> tes_within (?L + nat len) (transposable_elements g1)"
  proof (rule ListGenome_insert_loop_within [OF loop dom(3)])
    show "tes_within (?L + nat len) (transposable_elements g)"
      using w by (rule tes_within_mono) simp
    show "distinct (map fst (transposable_elements g))" using w by (simp add: tes_within_def)
    then show "\<forall>(j, v)\<in>set (transposable_elements g). map_of (transposable_elements g) j = Some v"
      by auto
    show "tes_within ?L (transposable_elements g)" by (rule w)
  qed
  then have l1: "length (genome g1) = ?L"
    and w1: "tes_within (?L + nat len) (transposable_elements g1)" by simp_all
  have len': "length (genome g') = ?L + nat len"
    using gen l1 dom by (simp add: length_setslice_insert)
  moreover have "tes_within (?L + nat len) (transposable_elements g')"
    unfolding tes using w1 dom by (intro tes_within_set) auto
  ultimately show ?thesis by simp
qed


section \<open>Every call in the domain keeps a genome sound\<close>

lemma ListGenome_copy_te_cases:
  assumes "ListGenome_copy_te g te offset = Inr (r, g')"
  obtains (absent) "map_of (transposable_elements g) te = None" "r = None" "g' = g"
  | (copied) s l i where "map_of (transposable_elements g) te = Some (s, l)"
      "genome g \<noteq> []"
      "ListGenome_insert_te g ((s + offset) mod int (length (genome g))) l = Inr (i, g')"
      "r = Some i"
  using assms
  by (auto simp: ListGenome_copy_te_def split: option.splits if_splits sum.splits)

lemma LinkedListGenome_copy_te_cases:
  assumes "LinkedListGenome_copy_te g te offset = Inr (r, g')"
  obtains (absent) "map_of (transposable_elements g) te = None" "r = None" "g' = g"
  | (copied) s l i p where "map_of (transposable_elements g) te = Some (s, l)"
      "LinkedListGenome_insert_te g p l = Inr (i, g')" "r = Some i"
  using assms
  by (auto simp: LinkedListGenome_copy_te_def split: option.splits if_splits sum.splits)

lemma call_sound_list:
  assumes s: "tes_within (length (genome g)) (transposable_elements g)"
    and dom: "in_domain (ListImpl g) c"
    and call: "Genome_call (ListImpl g) c = Inr (r, G')"
  shows "\<exists>g'. G' = ListImpl g' \<and>
     tes_within (length (genome g')) (transposable_elements g') \<and>
     0 \<le> inserted (ListImpl g) c \<and>
     length (genome g') = length (genome g) + nat (inserted (ListImpl g) c)"
proof (cases c)
  case (InsertTe pos len)
  with call obtain i g' where ins: "ListGenome_insert_te g pos len = Inr (i, g')"
    and G': "G' = ListImpl g'" by (auto split: sum.splits)
  from dom InsertTe have d: "0 \<le> pos" "pos \<le> int (length (genome g))" "0 \<le> len"
    by (simp_all add: ListGenome_len_def)
  from ListGenome_insert_te_within [OF ins s d] G' InsertTe d(3) show ?thesis by auto
next
  case (CopyTe te offset)
  with call obtain g' where cp: "ListGenome_copy_te g te offset = Inr (r, g')"
    and G': "G' = ListImpl g'" by (auto split: sum.splits)
  from cp show ?thesis
  proof (cases rule: ListGenome_copy_te_cases)
    case absent
    with G' CopyTe s show ?thesis by simp
  next
    case (copied st l i)
    let ?L = "int (length (genome g))"
    from tes_within_lookup [OF s copied(1)] have l: "0 \<le> l" by simp
    from copied(2) have "0 < ?L" by simp
    then have d: "0 \<le> (st + offset) mod ?L" "(st + offset) mod ?L \<le> ?L"
      by (simp_all add: less_imp_le)
    from ListGenome_insert_te_within [OF copied(3) s d l] G' CopyTe copied(1) l
    show ?thesis by auto
  qed
next
  case (DisableTe te)
  with call obtain g' where dis: "ListGenome_disable_te g te = Inr g'"
    and G': "G' = ListImpl g'" by (auto split: sum.splits)
  from dis obtain st l where look: "map_of (transposable_elements g) te = Some (st, l)"
    by (auto simp: ListGenome_disable_te_def split: option.splits)
  from tes_within_lookup [OF s look]
  have b: "0 \<le> st" "0 \<le> l" "st + l \<le> int (length (genome g))" by simp_all
  from ListGenome_disable_te_within [OF dis look b] s G' DisableTe
  show ?thesis by (auto simp: tes_within_pop)
qed

lemma call_sound_linked:
  assumes r: "ring (genome g) as"
    and call: "Genome_call (LinkedImpl g) c = Inr (r', G')"
  shows "\<exists>g' as'. G' = LinkedImpl g' \<and> ring (genome g') as' \<and>
     0 \<le> inserted (LinkedImpl g) c \<and>
     length as' = length as + nat (inserted (LinkedImpl g) c)"
proof (cases c)
  case (InsertTe pos len)
  with call obtain i g' where ins: "LinkedListGenome_insert_te g pos len = Inr (i, g')"
    and G': "G' = LinkedImpl g'" by (auto split: sum.splits)
  from LinkedListGenome_insert_te_ring [OF ins r] G' InsertTe show ?thesis by auto
next
  case (CopyTe te offset)
  with call obtain g' where cp: "LinkedListGenome_copy_te g te offset = Inr (r', g')"
    and G': "G' = LinkedImpl g'" by (auto split: sum.splits)
  from cp show ?thesis
  proof (cases rule: LinkedListGenome_copy_te_cases)
    case absent
    with G' CopyTe r show ?thesis by auto
  next
    case (copied st l i p)
    from LinkedListGenome_insert_te_ring [OF copied(2) r] G' CopyTe copied(1)
    show ?thesis by auto
  qed
next
  case (DisableTe te)
  with call obtain g' where dis: "LinkedListGenome_disable_te g te = Inr g'"
    and G': "G' = LinkedImpl g'" by (auto split: sum.splits)
  from LinkedListGenome_disable_te_ring [OF dis r] G' DisableTe show ?thesis by auto
qed

lemma call_sound:
  assumes "sound g" "in_domain g c" "Genome_call g c = Inr (r, g')"
  shows "sound g' \<and> 0 \<le> inserted g c \<and>
    (\<exists>n. Genome_len g = Inr n \<and> Genome_len g' = Inr (n + nat (inserted g c)))"
proof (cases g)
  case (ListImpl lg)
  with assms call_sound_list [of lg c r g'] show ?thesis
    by (auto simp: ListGenome_len_def)
next
  case (LinkedImpl lg)
  with assms(1) obtain as where r: "ring (genome lg) as" by auto
  from call_sound_linked [OF r] assms(3) LinkedImpl obtain lg' as' where
    "g' = LinkedImpl lg'" "ring (genome lg') as'" "0 \<le> inserted g c"
    "length as' = length as + nat (inserted g c)" by blast
  with r LinkedImpl show ?thesis
    by (auto simp: LinkedListGenome_len_def DLList_len_ring)
qed

lemma LinkedListGenome_init_ring:
  "\<exists>g as. LinkedListGenome_init tes ctr n = Inr g \<and> ring (genome g) as \<and>
     vals (store (genome g)) as = replicate (nat n) (Some CHR ''-'') \<and>
     transposable_elements g = tes \<and> tes_counter g = ctr"
  using DLList_init_ring [of "replicate (nat n) CHR ''-''"]
  by (auto simp: LinkedListGenome_init_def)

lemma new_sound: "Genome_new b n = Inr g \<Longrightarrow> sound g"
proof (cases b)
  case ListBacked
  assume "Genome_new b n = Inr g"
  with ListBacked show ?thesis
    by (auto simp: ListGenome_def ListGenome_init_def tes_within_def)
next
  case LinkedListBacked
  assume "Genome_new b n = Inr g"
  with LinkedListBacked LinkedListGenome_init_ring [of "[]" 1 n] show ?thesis
    by (auto simp: LinkedListGenome_def split: sum.splits)
qed

lemma reachable_sound: "reachable g \<Longrightarrow> sound g"
proof (induction rule: reachable.induct)
  case (first b n g)
  then show ?case by (rule new_sound)
next
  case (call g c r g')
  with call_sound [of g c r g'] show ?case by simp
qed

section \<open>Construction\<close>

text \<open>
  C6. The claim: a genome of size \<open>n \<ge> 0\<close> is \<open>n\<close> symbols \<^verbatim>\<open>-\<close> and has no active
  element whatever was done to other instances before, and a negative size fails with
  \<^verbatim>\<open>InvalidSize\<close>. The code has no such error: \<^verbatim>\<open>ListGenome(-1)\<close> is an empty genome. And
  the dictionary is a class attribute: after \<^verbatim>\<open>insert_te(0, 2)\<close> on a first genome the
  class holds element 1 and the counter 2, and a second \<^verbatim>\<open>ListGenome(3)\<close>, built on these
  class attributes, lists 1 as active.
\<close>

theorem construction_counterexample:
  "Genome_new ListBacked (- 1) =
     Inr (ListImpl \<lparr>genome = [], transposable_elements = [], tes_counter = 1\<rparr>) \<and>
   Genome_new LinkedListBacked (- 1) =
     Inr (LinkedImpl
       \<lparr>genome = \<lparr>store = [\<lparr>val = None, prev = Some 0, nxt = Some 0\<rparr>], head = 0\<rparr>,
        transposable_elements = [], tes_counter = 1\<rparr>) \<and>
   session ListBacked 5 [InsertTe 0 2] =
     Inr ([Some 1],
          ListImpl \<lparr>genome = ''AA-----'',
                    transposable_elements = [(1, (0, 2))], tes_counter = 2\<rparr>) \<and>
   ListGenome_active_tes (ListGenome_init [(1, (0, 2))] 2 3) = [1]"
  by code_simp

text \<open>
  C6, amended. For every size \<open>n\<close> and whatever the class attributes hold, both
  constructors return normally; the genome is \<open>n\<close> symbols \<^verbatim>\<open>-\<close> and has length \<open>n\<close> when
  \<open>n \<ge> 0\<close>, and is empty when \<open>n < 0\<close> (\<open>nat n\<close> is 0 then). The first genome of a process
  has no active element.
\<close>

theorem new_genome_is_empty_sequence:
  "ListGenome_str (ListGenome_init tes ctr n) = replicate (nat n) CHR ''-'' \<and>
   ListGenome_len (ListGenome_init tes ctr n) = nat n \<and>
   (\<exists>g. LinkedListGenome_init tes ctr n = Inr g \<and>
      LinkedListGenome_str g = Inr (replicate (nat n) CHR ''-'') \<and>
      LinkedListGenome_len g = Inr (nat n)) \<and>
   ListGenome_active_tes (ListGenome n) = [] \<and>
   (\<exists>g. LinkedListGenome n = Inr g \<and> LinkedListGenome_active_tes g = [])"
proof -
  have linked: "\<exists>g. LinkedListGenome_init t c n = Inr g \<and>
      LinkedListGenome_str g = Inr (replicate (nat n) CHR ''-'') \<and>
      LinkedListGenome_len g = Inr (nat n) \<and> LinkedListGenome_active_tes g = map fst t"
    for t c
  proof -
    from LinkedListGenome_init_ring [of t c n] obtain g as where
      g: "LinkedListGenome_init t c n = Inr g" and r: "ring (genome g) as"
      and v: "vals (store (genome g)) as = replicate (nat n) (Some CHR ''-'')"
      and t: "transposable_elements g = t" by blast
    from v have "length as = nat n" by (metis length_map length_replicate vals_def)
    moreover have "map the (replicate (nat n) (Some CHR ''-'')) = replicate (nat n) CHR ''-''"
      by simp
    ultimately show ?thesis using g r v t
      by (auto simp: LinkedListGenome_str_def LinkedListGenome_len_def
          LinkedListGenome_active_tes_def DLList_iter_ring DLList_len_ring)
  qed
  from linked [of tes ctr] linked [of "[]" 1] show ?thesis
    by (auto simp: ListGenome_str_def ListGenome_len_def ListGenome_init_def
        ListGenome_active_tes_def ListGenome_def LinkedListGenome_def)
qed

section \<open>Length\<close>

text \<open>
  C7. The claim: along every sequence of calls on a genome the length never decreases,
  a call of \<^verbatim>\<open>insert_te\<close> or \<^verbatim>\<open>copy_te\<close> that returns normally adds exactly the inserted
  length, and \<^verbatim>\<open>disable_te\<close> leaves the length as it is. The dictionary of
  \<^verbatim>\<open>ListGenome\<close> is a class attribute, shared by all its instances. After
  \<^verbatim>\<open>ListGenome(20).insert_te(10, 2)\<close> the class holds element 1 at \<open>(10, 2)\<close> and the
  counter 2. A second genome \<^verbatim>\<open>g = ListGenome(3)\<close> is built on these class attributes
  and has length 3; \<^verbatim>\<open>g.disable_te(1)\<close> finds element 1, assigns two \<^verbatim>\<open>x\<close> to
  \<^verbatim>\<open>g.genome[10:12]\<close>, a slice past the end, and so appends them: the call returns
  normally and the length of \<open>g\<close> is 5.
\<close>

theorem disable_te_grows_second_genome:
  "session ListBacked 20 [InsertTe 10 2] =
     Inr ([Some 1],
          ListImpl \<lparr>genome = ''----------AA----------'',
                    transposable_elements = [(1, (10, 2))], tes_counter = 2\<rparr>) \<and>
   ListGenome_init [(1, (10, 2))] 2 3 =
     \<lparr>genome = ''---'', transposable_elements = [(1, (10, 2))], tes_counter = 2\<rparr> \<and>
   Genome_len (ListImpl (ListGenome_init [(1, (10, 2))] 2 3)) = Inr 3 \<and>
   in_domain (ListImpl (ListGenome_init [(1, (10, 2))] 2 3)) (DisableTe 1) \<and>
   Genome_call (ListImpl (ListGenome_init [(1, (10, 2))] 2 3)) (DisableTe 1) =
     Inr (None, ListImpl \<lparr>genome = ''---xx'', transposable_elements = [],
                            tes_counter = 2\<rparr>) \<and>
   Genome_len (ListImpl \<lparr>genome = ''---xx'', transposable_elements = [],
                          tes_counter = 2\<rparr>) = Inr 5"
  by code_simp

text \<open>
  On a genome that is the only instance of its class in the process the property holds,
  for both classes: in every state reached from the first genome by calls inside their
  documented domain, a call that returns normally takes the length from \<open>n\<close> to \<open>n\<close> plus
  the inserted length. With a dictionary owned by each instance, every genome would be
  in this case.
\<close>

lemma length_grows_on_first_genome:
  assumes "reachable g" "in_domain g c" "Genome_call g c = Inr (r, g')"
  shows "\<exists>n n'. Genome_len g = Inr n \<and> Genome_len g' = Inr n' \<and>
     n' = n + nat (inserted g c) \<and> 0 \<le> inserted g c \<and> n \<le> n'"
  using call_sound [OF reachable_sound [OF assms(1)] assms(2,3)] by auto

lemma length_grows_on_first_genome_example:
  "reachable (ListImpl (ListGenome 5)) \<and>
   in_domain (ListImpl (ListGenome 5)) (InsertTe 0 2) \<and>
   Genome_call (ListImpl (ListGenome 5)) (InsertTe 0 2) =
     Inr (Some 1, ListImpl \<lparr>genome = ''AA-----'',
                            transposable_elements = [(1, (0, 2))], tes_counter = 2\<rparr>) \<and>
   Genome_len (ListImpl (ListGenome 5)) = Inr 5 \<and>
   Genome_len (ListImpl \<lparr>genome = ''AA-----'',
                        transposable_elements = [(1, (0, 2))], tes_counter = 2\<rparr>) = Inr 7"
proof -
  have r: "reachable (ListImpl (ListGenome 5))"
    by (rule reachable.first [of ListBacked 5]) simp
  have d: "in_domain (ListImpl (ListGenome 5)) (InsertTe 0 2)"
    by code_simp
  have c: "Genome_call (ListImpl (ListGenome 5)) (InsertTe 0 2) =
     Inr (Some 1, ListImpl \<lparr>genome = ''AA-----'',
                            transposable_elements = [(1, (0, 2))], tes_counter = 2\<rparr>)"
    by code_simp
  from length_grows_on_first_genome [OF r d c] r d c show ?thesis
    by (simp add: ListGenome_len_def ListGenome_def ListGenome_init_def)
qed

section \<open>Calls on ids that are not active\<close>

text \<open>
  C3. The claim: \<^verbatim>\<open>disable_te(te)\<close> on an id that is not active returns normally and
  changes nothing. Both classes raise \<^verbatim>\<open>KeyError\<close> instead (\<^verbatim>\<open>pop(te)\<close> without a default
  in \<^verbatim>\<open>ListGenome\<close>, \<^verbatim>\<open>transposable_elements[te]\<close> in \<^verbatim>\<open>LinkedListGenome\<close>), for an id
  never issued and for an id disabled before.
\<close>

theorem disable_te_inactive_raises:
  "session ListBacked 5 [DisableTe 1] = Inl KeyError \<and>
   session LinkedListBacked 5 [DisableTe 1] = Inl KeyError \<and>
   session ListBacked 5 [InsertTe 0 2, DisableTe 1, DisableTe 1] = Inl KeyError \<and>
   session LinkedListBacked 5 [InsertTe 1 2, DisableTe 1, DisableTe 1] = Inl KeyError"
  by code_simp



section \<open>Traces\<close>

text \<open>
  C1. The claim: the two classes agree on the string and on the active ids after every
  call of any sequence. On a genome of size 5, \<^verbatim>\<open>insert_te(2, 2)\<close> then \<^verbatim>\<open>insert_te(2, 1)\<close>
  leaves \<^verbatim>\<open>ListGenome\<close> with the first element disabled and \<^verbatim>\<open>LinkedListGenome\<close> with
  both elements active; and \<^verbatim>\<open>insert_te(0, 2)\<close> returns 1 on the former and raises on the
  latter.
\<close>

theorem representations_differ:
  "(case session ListBacked 5 [InsertTe 2 2, InsertTe 2 1] of
      Inl e \<Rightarrow> None | Inr (rs, g) \<Rightarrow> Some (rs, Genome_str g, Genome_active_tes g)) =
     Some ([Some 1, Some 2], Inr ''--Axx---'', [2]) \<and>
   (case session LinkedListBacked 5 [InsertTe 2 2, InsertTe 2 1] of
      Inl e \<Rightarrow> None | Inr (rs, g) \<Rightarrow> Some (rs, Genome_str g, Genome_active_tes g)) =
     Some ([Some 1, Some 2], Inr ''--AAA---'', [1, 2]) \<and>
   (case session ListBacked 5 [InsertTe 0 2] of
      Inl e \<Rightarrow> None | Inr (rs, g) \<Rightarrow> Some (rs, Genome_str g, Genome_active_tes g)) =
     Some ([Some 1], Inr ''AA-----'', [1]) \<and>
   session LinkedListBacked 5 [InsertTe 0 2] = Inl AttributeError"
  by code_simp

text \<open>
  C2. The claim: an element that stays active and whose recorded start is beyond \<open>pos\<close>
  has its start moved on by the inserted length. After \<^verbatim>\<open>insert_te(0, 2)\<close> and
  \<^verbatim>\<open>insert_te(3, 2)\<close> on a genome of size 5 the elements are 1 at 0 and 2 at 3. Then
  \<^verbatim>\<open>insert_te(1, 1)\<close> collides with element 1, disables it and leaves the loop: element 2
  stays active, 3 > 1, and its recorded start is still 3 although its symbols are now at
  4 and 5.
\<close>

theorem shift_skipped_after_collision:
  "session ListBacked 5 [InsertTe 0 2, InsertTe 3 2] =
     Inr ([Some 1, Some 2],
          ListImpl \<lparr>genome = ''AA-AA----'',
                    transposable_elements = [(1, (0, 2)), (2, (3, 2))], tes_counter = 3\<rparr>) \<and>
   session ListBacked 5 [InsertTe 0 2, InsertTe 3 2, InsertTe 1 1] =
     Inr ([Some 1, Some 2, Some 3],
          ListImpl \<lparr>genome = ''xAx-AA----'',
                    transposable_elements = [(2, (3, 2)), (3, (1, 1))], tes_counter = 4\<rparr>)"
  by code_simp

text \<open>
  C5. The claim: \<^verbatim>\<open>copy_te\<close> of an active element inserts at
  \<open>(start + offset) mod length\<close> and returns the new id, on every genome. On a genome of
  size 10 with element 1 at start 5 the length is 12, and \<^verbatim>\<open>copy_te(1, 7)\<close> wraps to
  position 0: \<^verbatim>\<open>ListGenome\<close> inserts there and returns 2, \<^verbatim>\<open>LinkedListGenome\<close> raises,
  because \<^verbatim>\<open>get_position(0)\<close> is \<^verbatim>\<open>None\<close>.
\<close>

theorem copy_te_wraps_to_zero:
  "(5 + 7) mod (12 :: int) = 0 \<and>
   session ListBacked 10 [InsertTe 5 2] =
     Inr ([Some 1],
          ListImpl \<lparr>genome = ''-----AA-----'',
                    transposable_elements = [(1, (5, 2))], tes_counter = 2\<rparr>) \<and>
   session ListBacked 10 [InsertTe 5 2, CopyTe 1 7] =
     Inr ([Some 1, Some 2],
          ListImpl \<lparr>genome = ''AA-----AA-----'',
                    transposable_elements = [(1, (7, 2)), (2, (0, 2))], tes_counter = 3\<rparr>) \<and>
   (case session LinkedListBacked 10 [InsertTe 5 2] of
      Inl e \<Rightarrow> None
    | Inr (rs, g) \<Rightarrow> Some (rs, Genome_str g, Genome_len g, Genome_tes g)) =
     Some ([Some 1], Inr ''-----AA-----'', Inr 12, [(1, (5, 2))]) \<and>
   session LinkedListBacked 10 [InsertTe 5 2, CopyTe 1 7] = Inl AttributeError"
  by code_simp

text \<open>
  C8. The claim: when the symbol at \<open>pos\<close> is \<^verbatim>\<open>A\<close>, an active element with
  \<open>s \<le> pos \<le> s + length\<close> is disabled and rendered as \<^verbatim>\<open>x\<close>. On a
  \<^verbatim>\<open>LinkedListGenome\<close> of size 6 with element 1 at \<open>(3, 2)\<close>, the symbol at 3 is \<^verbatim>\<open>A\<close> and
  \<open>3 \<le> 3 \<le> 5\<close>; \<^verbatim>\<open>insert_te(3, 4)\<close> leaves element 1 active and writes no \<^verbatim>\<open>x\<close>, because
  the test reads the link before the insertion point. \<^verbatim>\<open>ListGenome\<close> disables it.
\<close>

theorem linked_collision_missed:
  "(case session LinkedListBacked 6 [InsertTe 3 2] of
      Inl e \<Rightarrow> None | Inr (rs, g) \<Rightarrow> Some (Genome_str g, Genome_tes g)) =
     Some (Inr ''---AA---'', [(1, (3, 2))]) \<and>
   (case session LinkedListBacked 6 [InsertTe 3 2, InsertTe 3 4] of
      Inl e \<Rightarrow> None | Inr (rs, g) \<Rightarrow> Some (Genome_str g, Genome_active_tes g)) =
     Some (Inr ''---AAAAAA---'', [1, 2]) \<and>
   (case session ListBacked 6 [InsertTe 3 2, InsertTe 3 4] of
      Inl e \<Rightarrow> None | Inr (rs, g) \<Rightarrow> Some (Genome_str g, Genome_active_tes g)) =
     Some (Inr ''---AAAAxx---'', [2])"
  by code_simp

text \<open>
  C9. The scenario on a \<^verbatim>\<open>ListGenome\<close> of size 5. The claim gives the final length as 12;
  it is 9: 5 symbols, 2 inserted, 2 copied.
\<close>

theorem scenario_length_not_12:
  "session ListBacked 5 [InsertTe 0 2, CopyTe 1 3] =
     Inr ([Some 1, Some 2],
          ListImpl \<lparr>genome = ''AA-AA----'',
                    transposable_elements = [(1, (0, 2)), (2, (3, 2))], tes_counter = 3\<rparr>) \<and>
   Genome_len (ListImpl \<lparr>genome = ''AA-AA----'',
                        transposable_elements = [(1, (0, 2)), (2, (3, 2))],
                        tes_counter = 3\<rparr>) \<noteq> Inr 12"
  by code_simp

text \<open>
  C9, amended. \<^verbatim>\<open>insert_te(0, 2)\<close> returns 1 and the genome \<^verbatim>\<open>AA-----\<close> has length 7;
  \<^verbatim>\<open>copy_te(1, 3)\<close> inserts at \<open>(0 + 3) mod 7 = 3\<close> and returns 2; then the genome is
  \<^verbatim>\<open>AA-AA----\<close>, of length 9, and the active ids are 1 and 2.
\<close>

theorem scenario_size_5:
  "(case session ListBacked 5 [InsertTe 0 2] of
      Inl e \<Rightarrow> None
    | Inr (rs, g) \<Rightarrow>
        Some (rs, Genome_str g, Genome_len g,
              Genome_call g (CopyTe 1 3) = Genome_call g (InsertTe ((0 + 3) mod 7) 2))) =
     Some ([Some 1], Inr ''AA-----'', Inr 7, True) \<and>
   (0 + 3) mod (7 :: int) = 3 \<and>
   (case session ListBacked 5 [InsertTe 0 2, CopyTe 1 3] of
      Inl e \<Rightarrow> None
    | Inr (rs, g) \<Rightarrow> Some (rs, Genome_str g, Genome_len g, Genome_active_tes g)) =
     Some ([Some 1, Some 2], Inr ''AA-AA----'', Inr 9, [1, 2])"
  by code_simp

text \<open>
  C10. The claim: \<^verbatim>\<open>insert_te(pos, length)\<close> returns normally for every position of the
  genome, 0 included, on both classes. On a \<^verbatim>\<open>LinkedListGenome\<close>, \<^verbatim>\<open>get_position(0)\<close> is
  \<^verbatim>\<open>None\<close> and the call raises \<^verbatim>\<open>AttributeError\<close>: at \<^verbatim>\<open>insert_after\<close> when no element is
  active, at \<^verbatim>\<open>link_of_pos.val\<close> when one is. \<^verbatim>\<open>ListGenome\<close> inserts at 0 and returns the id.
\<close>

theorem linked_insert_at_zero_raises:
  "(case LinkedListGenome 5 of Inl e \<Rightarrow> None | Inr g \<Rightarrow> Some (get_position (genome g) 0)) =
     Some None \<and>
   (case Genome_new LinkedListBacked 5 of
      Inl e \<Rightarrow> None
    | Inr g \<Rightarrow> Some (in_domain g (InsertTe 0 2), Genome_call g (InsertTe 0 2))) =
     Some (True, Inl AttributeError) \<and>
   (case session LinkedListBacked 5 [InsertTe 1 2] of
      Inl e \<Rightarrow> None
    | Inr (rs, g) \<Rightarrow> Some (in_domain g (InsertTe 0 1), Genome_call g (InsertTe 0 1))) =
     Some (True, Inl AttributeError) \<and>
   Genome_call (ListImpl (ListGenome 5)) (InsertTe 0 2) =
     Inr (Some 1, ListImpl \<lparr>genome = ''AA-----'',
                            transposable_elements = [(1, (0, 2))], tes_counter = 2\<rparr>)"
  by code_simp

end
